theory Spec2Isabelle
  imports Complex_Main "HOL-Library.Sublist"
begin

section \<open>JavaScript values used by the utility functions\<close>

text \<open>
  The three utility functions of the server (\<open>parsePageSpec\<close>, \<open>markdownToText\<close>,
  \<open>cleanMarkdownContent\<close>) occur with identical bodies in the Node server and in the
  Cloudflare worker (\<open>src/worker.ts\<close>); one model covers both.

  A JavaScript string is modelled as a \<open>string\<close>, one \<open>char\<close> per UTF-16 code unit,
  so the model covers the strings whose code units lie below 256. A Number is either
  \<open>NaN\<close> or an integer: \<open>parseInt\<close> yields nothing else, and the integers are taken
  unbounded, which is exact for every numeral up to \<open>2^53\<close>.
\<close>

datatype jsnum = NaN | Num int

text \<open>The relational operators on Numbers: every comparison with \<open>NaN\<close> is false.\<close>

fun lt :: "jsnum \<Rightarrow> jsnum \<Rightarrow> bool" where
  "lt (Num a) (Num b) = (a < b)"
| "lt _ _ = False"

fun le :: "jsnum \<Rightarrow> jsnum \<Rightarrow> bool" where
  "le (Num a) (Num b) = (a \<le> b)"
| "le _ _ = False"

fun gt :: "jsnum \<Rightarrow> jsnum \<Rightarrow> bool" where
  "gt (Num a) (Num b) = (a > b)"
| "gt _ _ = False"

text \<open>The postfix increment \<open>i++\<close>.\<close>

fun incr :: "jsnum \<Rightarrow> jsnum" where
  "incr (Num a) = Num (a + 1)"
| "incr NaN = NaN"

text \<open>
  White space as \<open>String.prototype.trim\<close> and \<open>parseInt\<close> strip it (WhiteSpace and
  LineTerminator of the language definition), among the code units below 256:
  TAB, LF, VT, FF, CR, SP and NBSP.
\<close>

definition isWhiteSpace :: "char \<Rightarrow> bool" where
  "isWhiteSpace c \<longleftrightarrow>
     c \<in> set [CHR 0x09, CHR 0x0A, CHR 0x0B, CHR 0x0C, CHR 0x0D, CHR 0x20, CHR 0xA0]"

definition trimStart :: "string \<Rightarrow> string" where
  "trimStart s = dropWhile isWhiteSpace s"

definition trimEnd :: "string \<Rightarrow> string" where
  "trimEnd s = rev (dropWhile isWhiteSpace (rev s))"

definition trim :: "string \<Rightarrow> string" where
  "trim s = trimEnd (trimStart s)"

text \<open>
  \<open>s.split(sep)\<close> for a separator of one code unit: the empty string splits into one
  empty piece.
\<close>

fun split :: "char \<Rightarrow> string \<Rightarrow> string list" where
  "split sep [] = [[]]"
| "split sep (c # cs) =
     (if c = sep then [] # split sep cs
      else (let r = split sep cs in (c # hd r) # tl r))"

text \<open>\<open>xs.join(sep)\<close>: the empty array joins to the empty string.\<close>

fun join :: "string \<Rightarrow> string list \<Rightarrow> string" where
  "join sep [] = []"
| "join sep [x] = x"
| "join sep (x # y # zs) = x @ sep @ join sep (y # zs)"

definition startsWith :: "string \<Rightarrow> string \<Rightarrow> bool" where
  "startsWith s p \<longleftrightarrow> take (length p) s = p"

definition includesChar :: "string \<Rightarrow> char \<Rightarrow> bool" where
  "includesChar s c \<longleftrightarrow> c \<in> set s"

text \<open>The decimal digits \<open>0\<close> to \<open>9\<close> (also the regular expression class \<open>\d\<close>).\<close>

definition isDigit :: "char \<Rightarrow> bool" where
  "isDigit c \<longleftrightarrow> (48::nat) \<le> of_char c \<and> of_char c \<le> (57::nat)"

definition digitVal :: "char \<Rightarrow> int" where
  "digitVal c = int (of_char c) - 48"

text \<open>
  \<open>parseInt(str, 10)\<close>: leading white space is skipped, one sign is read, then the
  longest run of decimal digits; whatever follows is ignored. With no digit at that
  place the result is \<open>NaN\<close>.
\<close>

definition parseInt10 :: "string \<Rightarrow> jsnum" where
  "parseInt10 str =
     (let s = trimStart str;
          sign = (if s \<noteq> [] \<and> hd s = CHR ''-'' then - 1 else 1);
          s' = (if s \<noteq> [] \<and> (hd s = CHR ''+'' \<or> hd s = CHR ''-'') then tl s else s);
          z = takeWhile isDigit s'
      in if z = [] then NaN
         else Num (sign * foldl (\<lambda>a c. 10 * a + digitVal c) 0 z))"

section \<open>parsePageSpec\<close>

text \<open>
  The page set is a \<open>Set<number>\<close>: a list without repetition, in insertion order.
  \<open>Set.prototype.add\<close> compares with SameValueZero, for which \<open>NaN\<close> equals \<open>NaN\<close>,
  as the equality of \<open>jsnum\<close> has it.
\<close>

definition setAdd :: "'a \<Rightarrow> 'a list \<Rightarrow> 'a list" where
  "setAdd x xs = (if x \<in> set xs then xs else xs @ [x])"

text \<open>The three kinds of \<open>Error\<close> that \<open>parsePageSpec\<close> throws, by their message.\<close>

datatype page_error =
    MustBePositive        \<comment> \<open>Page numbers must be positive\<close>
  | InvalidRangeFormat    \<comment> \<open>Invalid page range format\<close>
  | InvalidRange          \<comment> \<open>Invalid page range: start must be <= end\<close>

text \<open>The loop \<open>for (let i = start; i <= end; i++) pages.add(i)\<close>.\<close>

function rangeLoop :: "jsnum \<Rightarrow> jsnum \<Rightarrow> jsnum list \<Rightarrow> jsnum list" where
  "rangeLoop i e pages = (if le i e then rangeLoop (incr i) e (setAdd i pages) else pages)"
  by pat_completeness auto
termination
proof (relation "measure (\<lambda>(i, e, pages).
         case (i, e) of (Num a, Num b) \<Rightarrow> nat (b - a + 1) | _ \<Rightarrow> 0)")
  show "wf (measure (\<lambda>(i, e, pages).
         case (i, e) of (Num a, Num b) \<Rightarrow> nat (b - a + 1) | _ \<Rightarrow> 0))"
    by simp
next
  fix i e :: jsnum and pages :: "jsnum list"
  assume "le i e"
  then show "((incr i, e, setAdd i pages), (i, e, pages))
      \<in> measure (\<lambda>(i, e, pages).
         case (i, e) of (Num a, Num b) \<Rightarrow> nat (b - a + 1) | _ \<Rightarrow> 0)"
    by (cases i; cases e) simp_all
qed

text \<open>The body of the loop over the comma-separated parts, for one part.\<close>

definition parsePart :: "string \<Rightarrow> jsnum list \<Rightarrow> page_error + jsnum list" where
  "parsePart part pages =
     (let trimmed = trim part in
      if includesChar trimmed (CHR ''-'') then
        if startsWith trimmed ''-'' then Inl MustBePositive
        else
          let rangeParts = split (CHR ''-'') trimmed in
          if length rangeParts \<noteq> 2 then Inl InvalidRangeFormat
          else
            let start = parseInt10 (trim (rangeParts ! 0));
                end' = parseInt10 (trim (rangeParts ! 1)) in
            if lt start (Num 1) \<or> lt end' (Num 1) then Inl MustBePositive
            else if gt start end' then Inl InvalidRange
            else Inr (rangeLoop start end' pages)
      else
        let pageNum = parseInt10 trimmed in
        if lt pageNum (Num 1) then Inl MustBePositive
        else Inr (setAdd pageNum pages))"

fun parseParts :: "string list \<Rightarrow> jsnum list \<Rightarrow> page_error + jsnum list" where
  "parseParts [] pages = Inr pages"
| "parseParts (part # parts) pages =
     (case parsePart part pages of
        Inl e \<Rightarrow> Inl e
      | Inr pages' \<Rightarrow> parseParts parts pages')"

definition parsePageSpec :: "string \<Rightarrow> page_error + jsnum list" where
  "parsePageSpec pageSpec = parseParts (split (CHR '','') pageSpec) []"

text \<open>What the guards of \<open>parsePageSpec\<close> let through: \<open>NaN\<close> and the integers from 1.\<close>

definition validPage :: "jsnum \<Rightarrow> bool" where
  "validPage p \<longleftrightarrow> (case p of NaN \<Rightarrow> True | Num n \<Rightarrow> 1 \<le> n)"

section \<open>cleanMarkdownContent\<close>

text \<open>
  \<open>lineCounts\<close> is a \<open>Map<string, number>\<close>: an association list in insertion order
  whose keys are distinct. \<open>mapSet\<close> is \<open>Map.prototype.set\<close> (an existing key keeps its
  place), \<open>getOrZero\<close> is the expression \<open>lineCounts.get(trimmed) || 0\<close>.
\<close>

fun mapSet :: "'k \<Rightarrow> 'v \<Rightarrow> ('k \<times> 'v) list \<Rightarrow> ('k \<times> 'v) list" where
  "mapSet k v [] = [(k, v)]"
| "mapSet k v ((k', v') # m) = (if k' = k then (k, v) # m else (k', v') # mapSet k v m)"

definition getOrZero :: "('k \<times> nat) list \<Rightarrow> 'k \<Rightarrow> nat" where
  "getOrZero m k = (case map_of m k of None \<Rightarrow> 0 | Some n \<Rightarrow> n)"

text \<open>The first loop: count the occurrences of each non-empty trimmed line.\<close>

fun countLines :: "string list \<Rightarrow> (string \<times> nat) list \<Rightarrow> (string \<times> nat) list" where
  "countLines [] lineCounts = lineCounts"
| "countLines (line # rest) lineCounts =
     (let trimmed = trim line in
      countLines rest
        (if length trimmed > 0
         then mapSet trimmed (getOrZero lineCounts trimmed + 1) lineCounts
         else lineCounts))"

text \<open>
  The four regular expressions that protect a line. With the flag \<open>i\<close> (and without
  \<open>u\<close>) two code units match when their upper-case forms agree, and a code unit above
  127 never matches an ASCII letter: on the letters of \<open>Page\<close> and \<open>doi\<close> that is the
  comparison of ASCII upper-case forms.
\<close>

definition asciiUpper :: "char \<Rightarrow> char" where
  "asciiUpper c =
     (if (97::nat) \<le> of_char c \<and> of_char c \<le> (122::nat)
      then char_of (of_char c - (32::nat)) else c)"

text \<open>\<open>/^Page \d+/i\<close>\<close>

definition matchPage :: "string \<Rightarrow> bool" where
  "matchPage line \<longleftrightarrow>
     map asciiUpper (take 5 line) = ''PAGE '' \<and> takeWhile isDigit (drop 5 line) \<noteq> []"

text \<open>\<open>/^\[\d+\]/\<close>\<close>

definition matchFootnote :: "string \<Rightarrow> bool" where
  "matchFootnote line \<longleftrightarrow>
     startsWith line ''[''
     \<and> takeWhile isDigit (drop 1 line) \<noteq> []
     \<and> startsWith (dropWhile isDigit (drop 1 line)) '']''"

text \<open>\<open>/doi:/i\<close>, at any position.\<close>

fun matchDoi :: "string \<Rightarrow> bool" where
  "matchDoi [] = False"
| "matchDoi (c # cs) = (map asciiUpper (take 4 (c # cs)) = ''DOI:'' \<or> matchDoi cs)"

text \<open>\<open>/^\d+$/\<close>\<close>

definition matchDigits :: "string \<Rightarrow> bool" where
  "matchDigits line \<longleftrightarrow> line \<noteq> [] \<and> list_all isDigit line"

text \<open>The second loop, over the entries of \<open>lineCounts\<close>.\<close>

fun findRepetitive :: "(string \<times> nat) list \<Rightarrow> string list \<Rightarrow> string list" where
  "findRepetitive [] repetitiveLines = repetitiveLines"
| "findRepetitive ((line, count) # entries) repetitiveLines =
     findRepetitive entries
       (if count \<ge> 3 then
          (if \<not> matchPage line \<and> \<not> matchFootnote line
              \<and> \<not> matchDoi line \<and> \<not> matchDigits line
           then setAdd line repetitiveLines else repetitiveLines)
        else repetitiveLines)"

definition LF :: char where
  "LF = CHR 0x0A"

text \<open>The lines that the filter keeps, and the function itself.\<close>

definition cleanedLines :: "string \<Rightarrow> string list" where
  "cleanedLines content =
     (let lines = split LF content;
          lineCounts = countLines lines [];
          repetitiveLines = findRepetitive lineCounts []
      in filter (\<lambda>line. let trimmed = trim line
                        in length trimmed = 0 \<or> trimmed \<notin> set repetitiveLines) lines)"

definition cleanMarkdownContent :: "string \<Rightarrow> string \<times> string" where
  "cleanMarkdownContent content =
     (let cleanedContent = join [LF] (cleanedLines content)
      in (cleanedContent, ''lightweight inline deduplication''))"

text \<open>
  Notions for stating the properties of the cleaner. A protected line matches one of the
  four expressions. The occurrences of a trimmed line are the lines with that trimmed
  form; a blank line is never counted (the frequency table has no entry for it). A line
  is kept when it is blank, occurs fewer than three times or is protected.
\<close>

definition isProtected :: "string \<Rightarrow> bool" where
  "isProtected t \<longleftrightarrow> matchPage t \<or> matchFootnote t \<or> matchDoi t \<or> matchDigits t"

definition occurrences :: "string list \<Rightarrow> string \<Rightarrow> nat" where
  "occurrences lines t = (if t = [] then 0 else count_list (map trim lines) t)"

definition kept :: "string list \<Rightarrow> string \<Rightarrow> bool" where
  "kept lines line \<longleftrightarrow>
     trim line = [] \<or> occurrences lines (trim line) < 3 \<or> isProtected (trim line)"

text \<open>
  The handler of \<open>mistral_ocr_clean_markdown\<close> reports
  \<open>Math.round(((1 - cleanedLength / originalLength) * 100) * 10) / 10\<close>, or 0 for an
  empty original. The arithmetic is taken over the reals; \<open>Math.round x\<close> is
  \<open>\<lfloor>x + 1/2\<rfloor>\<close>.
\<close>

definition reduction_percent :: "nat \<Rightarrow> nat \<Rightarrow> real" where
  "reduction_percent originalLength cleanedLength =
     (if originalLength > 0
      then of_int \<lfloor>((1 - real cleanedLength / real originalLength) * 100) * 10 + 1 / 2\<rfloor> / 10
      else 0)"

section \<open>markdownToText\<close>

text \<open>
  Each regular expression is a matcher at the start of a string that returns the rest
  of the string after the match. In a regular expression without the flag \<open>s\<close>,
  \<open>.\<close> matches any code unit but a line terminator (LF and CR, below 256).
\<close>

definition isLineTerminator :: "char \<Rightarrow> bool" where
  "isLineTerminator c \<longleftrightarrow> c = CHR 0x0A \<or> c = CHR 0x0D"

text \<open>A literal: the rest after it, when the string starts with it.\<close>

definition expect :: "string \<Rightarrow> string \<Rightarrow> string option" where
  "expect lit s = (if startsWith s lit then Some (drop (length lit) s) else None)"

text \<open>
  The lazy \<open>.*?\<close> followed by the rest \<open>k\<close> of the expression: the rest is tried first,
  and one more code unit is taken only when the rest fails (backtracking).
\<close>

fun lazyDotThen :: "(string \<Rightarrow> string option) \<Rightarrow> string \<Rightarrow> string option" where
  "lazyDotThen k [] = k []"
| "lazyDotThen k (c # cs) =
     (case k (c # cs) of
        Some r \<Rightarrow> Some r
      | None \<Rightarrow> if isLineTerminator c then None else lazyDotThen k cs)"

text \<open>\<open>/!\[.*?\]\(.*?\)/\<close>\<close>

definition matchImage :: "string \<Rightarrow> string option" where
  "matchImage s =
     (case expect ''!['' s of
        None \<Rightarrow> None
      | Some s1 \<Rightarrow>
          lazyDotThen (\<lambda>s2. case expect ''](''  s2 of
                               None \<Rightarrow> None
                             | Some s3 \<Rightarrow> lazyDotThen (expect '')'') s3) s1)"

text \<open>
  \<open>/\[([^\]]+)\]\([^\)]+\)/\<close>: the group and the rest. A greedy class followed by the
  very code unit it excludes can only stop at the first such code unit.
\<close>

definition matchLink :: "string \<Rightarrow> (string \<times> string) option" where
  "matchLink s =
     (case expect ''['' s of
        None \<Rightarrow> None
      | Some s1 \<Rightarrow>
          let group1 = takeWhile (\<lambda>c. c \<noteq> CHR '']'') s1;
              s2 = dropWhile (\<lambda>c. c \<noteq> CHR '']'') s1
          in if group1 = [] then None
             else (case expect ''](''  s2 of
                     None \<Rightarrow> None
                   | Some s3 \<Rightarrow>
                       if takeWhile (\<lambda>c. c \<noteq> CHR '')'') s3 = [] then None
                       else (case expect '')'' (dropWhile (\<lambda>c. c \<noteq> CHR '')'') s3) of
                               None \<Rightarrow> None
                             | Some s4 \<Rightarrow> Some (group1, s4))))"

lemma expect_length: "expect lit s = Some r \<Longrightarrow> length r + length lit = length s"
  by (auto simp: expect_def startsWith_def split: if_splits)
     (metis append_take_drop_id length_append add.commute length_drop)

lemma lazyDotThen_length:
  assumes "\<And>t r. k t = Some r \<Longrightarrow> length r \<le> length t"
  shows "lazyDotThen k s = Some r \<Longrightarrow> length r \<le> length s"
proof (induction s)
  case Nil
  then show ?case using assms [of "[]" r] by simp
next
  case (Cons c cs)
  show ?case
  proof (cases "k (c # cs)")
    case None
    with Cons show ?thesis by (auto split: if_splits)
  next
    case (Some r')
    with Cons.prems have "r' = r" by simp
    with Some assms show ?thesis by blast
  qed
qed

lemma matchImage_shorter: "matchImage s = Some r \<Longrightarrow> length r < length s"
proof -
  assume m: "matchImage s = Some r"
  then obtain s1 where s1: "expect ''!['' s = Some s1"
    by (auto simp: matchImage_def split: option.splits)
  have inner: "\<And>t r. lazyDotThen (expect '')'') t = Some r \<Longrightarrow> length r \<le> length t"
    by (rule lazyDotThen_length) (auto dest: expect_length)
  have "length r \<le> length s1"
  proof (rule lazyDotThen_length)
    show "lazyDotThen (\<lambda>s2. case expect ''](''  s2 of None \<Rightarrow> None
             | Some s3 \<Rightarrow> lazyDotThen (expect '')'') s3) s1 = Some r"
      using m s1 by (simp add: matchImage_def)
  next
    fix t r'
    assume "(case expect ''](''  t of None \<Rightarrow> None
             | Some s3 \<Rightarrow> lazyDotThen (expect '')'') s3) = Some r'"
    then obtain s3 where "expect ''](''  t = Some s3" "lazyDotThen (expect '')'') s3 = Some r'"
      by (auto split: option.splits)
    then show "length r' \<le> length t"
      using inner [of s3 r'] expect_length [of "''](''" t s3] by simp
  qed
  then show ?thesis using expect_length [OF s1] by simp
qed

lemma matchLink_shorter: "matchLink s = Some (g, r) \<Longrightarrow> length r < length s"
proof -
  assume m: "matchLink s = Some (g, r)"
  then obtain s1 s3 where
      s1: "expect ''['' s = Some s1"
    and s3: "expect ''](''  (dropWhile (\<lambda>c. c \<noteq> CHR '']'') s1) = Some s3"
    and r: "expect '')'' (dropWhile (\<lambda>c. c \<noteq> CHR '')'') s3) = Some r"
    by (auto simp: matchLink_def Let_def split: option.splits if_splits)
  have "length r \<le> length (dropWhile (\<lambda>c. c \<noteq> CHR '')'') s3)"
    using expect_length [OF r] by simp
  also have "\<dots> \<le> length s3" by (rule length_dropWhile_le)
  also have "\<dots> \<le> length (dropWhile (\<lambda>c. c \<noteq> CHR '']'') s1)"
    using expect_length [OF s3] by simp
  also have "\<dots> \<le> length s1" by (rule length_dropWhile_le)
  finally show ?thesis using expect_length [OF s1] by simp
qed

text \<open>
  \<open>text.replace(re, replacement)\<close> with the flag \<open>g\<close>: the matches are found from left
  to right, each search starting where the last match ended; the code units outside
  the matches are copied. Images are replaced by nothing, links by their group
  (\<open>"$1"\<close>).
\<close>

function replaceImages :: "string \<Rightarrow> string" where
  "replaceImages [] = []"
| "replaceImages (c # cs) =
     (case matchImage (c # cs) of
        Some rest \<Rightarrow> replaceImages rest
      | None \<Rightarrow> c # replaceImages cs)"
  by pat_completeness auto
termination
  by (relation "measure length") (auto dest: matchImage_shorter)

function replaceLinks :: "string \<Rightarrow> string" where
  "replaceLinks [] = []"
| "replaceLinks (c # cs) =
     (case matchLink (c # cs) of
        Some (group1, rest) \<Rightarrow> group1 @ replaceLinks rest
      | None \<Rightarrow> c # replaceLinks cs)"
  by pat_completeness auto
termination
  by (relation "measure length") (auto dest: matchLink_shorter)

text \<open>\<open>/[#*_`~]+/g\<close> replaced by nothing: every such code unit goes.\<close>

definition removeMarkers :: "string \<Rightarrow> string" where
  "removeMarkers s = filter (\<lambda>c. c \<notin> set [CHR ''#'', CHR ''*'', CHR ''_'', CHR 0x60, CHR ''~'']) s"

text \<open>
  \<open>/\n{3,}/g\<close> replaced by two line feeds: a maximal run of three or more line feeds
  becomes two, a shorter run stays.
\<close>

function normalizeNewlines :: "string \<Rightarrow> string" where
  "normalizeNewlines [] = []"
| "normalizeNewlines (c # cs) =
     (if c = LF then
        (let run = c # takeWhile (\<lambda>x. x = LF) cs
         in (if length run \<ge> 3 then [LF, LF] else run)
            @ normalizeNewlines (dropWhile (\<lambda>x. x = LF) cs))
      else c # normalizeNewlines cs)"
  by pat_completeness auto
termination
  by (relation "measure length") (auto simp: less_Suc_eq_le length_dropWhile_le)

definition markdownToText :: "string \<Rightarrow> string" where
  "markdownToText content =
     trim (normalizeNewlines (removeMarkers (replaceLinks (replaceImages content))))"

section \<open>Splitting and joining\<close>

lemma split_not_Nil: "split sep s \<noteq> []"
  by (induction s) (simp_all add: Let_def)

lemma join_Cons: "ys \<noteq> [] \<Longrightarrow> join sep (x # ys) = x @ sep @ join sep ys"
  by (cases ys) simp_all

lemma join_split: "join [sep] (split sep s) = s"
proof (induction s)
  case Nil
  show ?case by simp
next
  case (Cons c cs)
  obtain x xs where r: "split sep cs = x # xs"
    using split_not_Nil [of sep cs] by (cases "split sep cs") auto
  show ?case
  proof (cases "c = sep")
    case True
    then show ?thesis using Cons by (simp add: join_Cons split_not_Nil)
  next
    case False
    then show ?thesis using Cons r by (cases xs) (simp_all add: Let_def)
  qed
qed

lemma split_no_sep: "l \<in> set (split sep s) \<Longrightarrow> sep \<notin> set l"
proof (induction s arbitrary: l)
  case Nil
  then show ?case by simp
next
  case (Cons c cs)
  obtain x xs where r: "split sep cs = x # xs"
    using split_not_Nil [of sep cs] by (cases "split sep cs") auto
  show ?case
  proof (cases "c = sep")
    case True
    with Cons show ?thesis by auto
  next
    case False
    with Cons.prems r have "l = c # x \<or> l \<in> set xs" by (simp add: Let_def)
    moreover have "sep \<notin> set x" using Cons.IH [of x] r by simp
    moreover have "l \<in> set xs \<Longrightarrow> sep \<notin> set l" using Cons.IH [of l] r by simp
    ultimately show ?thesis using False by auto
  qed
qed

lemma split_single: "sep \<notin> set a \<Longrightarrow> split sep a = [a]"
  by (induction a) (auto simp: Let_def)

lemma split_append: "sep \<notin> set a \<Longrightarrow> split sep (a @ sep # b) = a # split sep b"
  by (induction a) (auto simp: Let_def)

lemma split_join:
  "ls \<noteq> [] \<Longrightarrow> (\<And>l. l \<in> set ls \<Longrightarrow> sep \<notin> set l) \<Longrightarrow> split sep (join [sep] ls) = ls"
proof (induction ls)
  case Nil
  then show ?case by simp
next
  case (Cons x xs)
  show ?case
  proof (cases xs)
    case Nil
    with Cons.prems show ?thesis by (simp add: split_single)
  next
    case (Cons y ys)
    then have "split sep (join [sep] xs) = xs"
      using Cons.IH Cons.prems by simp
    moreover have "sep \<notin> set x" using Cons.prems by simp
    ultimately show ?thesis using Cons by (simp add: split_append)
  qed
qed

lemma length_join_filter: "length (join [sep] (filter P ls)) \<le> length (join [sep] ls)"
proof (induction ls)
  case Nil
  show ?case by simp
next
  case (Cons x xs)
  show ?case
  proof (cases xs)
    case Nil
    then show ?thesis by simp
  next
    case (Cons y ys)
    have le: "length (join [sep] (filter P xs)) \<le> length (join [sep] xs)" by (rule Cons.IH)
    have full: "join [sep] (x # xs) = x @ [sep] @ join [sep] xs"
      using Cons by simp
    show ?thesis
    proof (cases "P x")
      case False
      then show ?thesis using le full by simp
    next
      case True
      then show ?thesis using le full
        by (cases "filter P xs") simp_all
    qed
  qed
qed

section \<open>The frequency table and the repetitive set\<close>

lemma map_of_mapSet: "map_of (mapSet k v m) = (map_of m)(k \<mapsto> v)"
  by (induction m) auto

lemma keys_mapSet: "fst ` set (mapSet k v m) = insert k (fst ` set m)"
proof -
  have "fst ` set (mapSet k v m) = dom (map_of (mapSet k v m))"
    by (simp add: dom_map_of_conv_image_fst)
  also have "\<dots> = insert k (dom (map_of m))"
    by (simp add: map_of_mapSet)
  finally show ?thesis by (simp add: dom_map_of_conv_image_fst)
qed

lemma distinct_mapSet: "distinct (map fst m) \<Longrightarrow> distinct (map fst (mapSet k v m))"
  by (induction m) (auto simp: keys_mapSet)

lemma getOrZero_mapSet:
  "getOrZero (mapSet k v m) k' = (if k' = k then v else getOrZero m k')"
  by (simp add: getOrZero_def map_of_mapSet)

lemma distinct_countLines:
  "distinct (map fst m) \<Longrightarrow> distinct (map fst (countLines ls m))"
  by (induction ls arbitrary: m) (simp_all add: Let_def distinct_mapSet)

lemma getOrZero_countLines:
  "getOrZero (countLines ls m) t = getOrZero m t + occurrences ls t"
proof (induction ls arbitrary: m)
  case Nil
  show ?case by (simp add: occurrences_def)
next
  case (Cons l ls)
  show ?case
    by (simp add: Let_def Cons.IH getOrZero_mapSet occurrences_def)
qed

text \<open>The frequency table holds, for each trimmed line, the number of its occurrences.\<close>

lemma lineCounts_occurrences: "getOrZero (countLines ls []) t = occurrences ls t"
  using getOrZero_countLines [of ls "[]" t] by (simp add: getOrZero_def)

lemma set_findRepetitive:
  "set (findRepetitive es rep)
   = set rep \<union> {l. \<exists>c. (l, c) \<in> set es \<and> 3 \<le> c \<and> \<not> isProtected l}"
proof (induction es arbitrary: rep)
  case Nil
  show ?case by simp
next
  case (Cons e es)
  obtain l c where e: "e = (l, c)" by (cases e)
  show ?case
    unfolding e by (auto simp: Cons.IH setAdd_def isProtected_def)
qed

lemma repetitive_iff:
  "t \<in> set (findRepetitive (countLines ls []) [])
   \<longleftrightarrow> 3 \<le> occurrences ls t \<and> \<not> isProtected t"
proof -
  let ?m = "countLines ls []"
  have d: "distinct (map fst ?m)" by (rule distinct_countLines) simp
  have g: "getOrZero ?m t = occurrences ls t"
    using getOrZero_countLines [of ls "[]" t] by (simp add: getOrZero_def)
  have "(\<exists>c. (t, c) \<in> set ?m \<and> 3 \<le> c) \<longleftrightarrow> 3 \<le> getOrZero ?m t"
    by (auto simp: getOrZero_def map_of_eq_Some_iff [OF d, symmetric] split: option.splits)
  then show ?thesis
    using g by (auto simp: set_findRepetitive)
qed

lemma cleanedLines_eq:
  "cleanedLines content = filter (kept (split LF content)) (split LF content)"
  unfolding cleanedLines_def Let_def kept_def
  by (rule filter_cong) (auto simp: repetitive_iff)

lemma LF_notin_cleaned: "l \<in> set (cleanedLines content) \<Longrightarrow> LF \<notin> set l"
  by (auto simp: cleanedLines_eq dest: split_no_sep)

lemma output_lines:
  "split LF (fst (cleanMarkdownContent content))
   = (if cleanedLines content = [] then [[]] else cleanedLines content)"
  by (simp add: cleanMarkdownContent_def split_join LF_notin_cleaned)

lemma occurrences_filter_le: "occurrences (filter P ls) t \<le> occurrences ls t"
  by (induction ls) (auto simp: occurrences_def)

lemma kept_filter: "kept ls l \<Longrightarrow> kept (filter P ls) l"
  using occurrences_filter_le [of P ls "trim l"] by (auto simp: kept_def)

lemma trim_Nil: "trim [] = []"
  by (simp add: trim_def trimStart_def trimEnd_def)

lemma count_list_filter: "count_list (filter P xs) x = (if P x then count_list xs x else 0)"
  by (induction xs) auto

lemma kept_count:
  assumes "line \<in> set (split LF content)" and "kept (split LF content) line"
  shows "count_list (split LF (fst (cleanMarkdownContent content))) line
         = count_list (split LF content) line"
proof -
  have "line \<in> set (cleanedLines content)"
    using assms by (simp add: cleanedLines_eq)
  then have "cleanedLines content \<noteq> []" by auto
  then have "split LF (fst (cleanMarkdownContent content)) = cleanedLines content"
    by (simp add: output_lines)
  then show ?thesis
    using assms(2) by (simp add: cleanedLines_eq count_list_filter)
qed

lemma not_kept_removed:
  assumes "\<not> kept (split LF content) line"
  shows "line \<notin> set (split LF (fst (cleanMarkdownContent content)))"
proof -
  have "trim line \<noteq> []" using assms by (auto simp: kept_def)
  then have "line \<noteq> []" by (auto simp: trim_Nil)
  moreover have "line \<notin> set (cleanedLines content)"
    using assms by (simp add: cleanedLines_eq)
  ultimately show ?thesis by (simp add: output_lines)
qed

lemma reduction_percent_nonneg:
  assumes "c \<le> n"
  shows "0 \<le> reduction_percent n c"
proof (cases "n > 0")
  case False
  then show ?thesis by (simp add: reduction_percent_def)
next
  case True
  then have "real c / real n \<le> 1" using assms by simp
  then have "0 \<le> ((1 - real c / real n) * 100) * 10 + 1 / 2" by simp
  then have "0 \<le> \<lfloor>((1 - real c / real n) * 100) * 10 + 1 / 2\<rfloor>" by simp
  then show ?thesis using True by (simp add: reduction_percent_def)
qed

lemma rangeLoop_NaN: "rangeLoop i NaN pages = pages"
  by (cases i) simp_all

section \<open>The converter only deletes code units\<close>

text \<open>
  Each step of \<open>markdownToText\<close> deletes code units and keeps the others in their order:
  a match of an expression ends where a suffix of the string begins, a link keeps its
  group, a run of line feeds keeps two of them, and \<open>trim\<close> cuts both ends.
\<close>

lemma suffix_subseq: "suffix r s \<Longrightarrow> subseq r s"
  by (auto simp: suffix_def intro: subseq_drop_many)

lemma expect_suffix: "expect lit s = Some r \<Longrightarrow> suffix r s"
  by (auto simp: expect_def suffix_drop split: if_splits)

lemma expect_decompose: "expect lit s = Some r \<Longrightarrow> s = lit @ r"
  by (auto simp: expect_def startsWith_def split: if_splits)
     (metis append_take_drop_id)

lemma lazyDotThen_suffix:
  assumes "\<And>t r. k t = Some r \<Longrightarrow> suffix r t"
  shows "lazyDotThen k s = Some r \<Longrightarrow> suffix r s"
proof (induction s)
  case Nil
  then show ?case using assms [of "[]" r] by simp
next
  case (Cons c cs)
  show ?case
  proof (cases "k (c # cs)")
    case None
    with Cons have "suffix r cs" by (auto split: if_splits)
    then show ?thesis by (rule suffix_ConsI)
  next
    case (Some r')
    with Cons.prems have "r' = r" by simp
    with Some assms show ?thesis by blast
  qed
qed

lemma matchImage_suffix: "matchImage s = Some r \<Longrightarrow> suffix r s"
proof -
  assume m: "matchImage s = Some r"
  then obtain s1 where s1: "expect ''!['' s = Some s1"
    by (auto simp: matchImage_def split: option.splits)
  have inner: "\<And>t r. lazyDotThen (expect '')'') t = Some r \<Longrightarrow> suffix r t"
    by (rule lazyDotThen_suffix) (rule expect_suffix)
  have "suffix r s1"
  proof (rule lazyDotThen_suffix)
    show "lazyDotThen (\<lambda>s2. case expect ''](''  s2 of None \<Rightarrow> None
             | Some s3 \<Rightarrow> lazyDotThen (expect '')'') s3) s1 = Some r"
      using m s1 by (simp add: matchImage_def)
  next
    fix t r'
    assume "(case expect ''](''  t of None \<Rightarrow> None
             | Some s3 \<Rightarrow> lazyDotThen (expect '')'') s3) = Some r'"
    then obtain s3 where "expect ''](''  t = Some s3" "lazyDotThen (expect '')'') s3 = Some r'"
      by (auto split: option.splits)
    then show "suffix r' t"
      using inner [of s3 r'] expect_suffix [of "''](''" t s3] suffix_order.trans by blast
  qed
  then show ?thesis using expect_suffix [OF s1] suffix_order.trans by blast
qed

lemma subseq_replaceImages: "subseq (replaceImages s) s"
proof (induction s rule: replaceImages.induct)
  case 1
  show ?case by simp
next
  case (2 c cs)
  show ?case
  proof (cases "matchImage (c # cs)")
    case None
    then show ?thesis using 2 by simp
  next
    case (Some rest)
    then have ih: "subseq (replaceImages rest) rest" using 2 by simp
    have "subseq rest (c # cs)"
      using Some by (intro suffix_subseq matchImage_suffix)
    with ih have "subseq (replaceImages rest) (c # cs)" by (rule subseq_order.trans)
    then show ?thesis using Some by simp
  qed
qed

lemma matchLink_decompose:
  assumes "matchLink s = Some (g, r)"
  shows "\<exists>mid. s = ''['' @ g @ mid \<and> suffix r mid"
proof -
  from assms obtain s1 s3 where
      s1: "expect ''['' s = Some s1"
    and g: "g = takeWhile (\<lambda>c. c \<noteq> CHR '']'') s1"
    and s3: "expect ''](''  (dropWhile (\<lambda>c. c \<noteq> CHR '']'') s1) = Some s3"
    and r: "expect '')'' (dropWhile (\<lambda>c. c \<noteq> CHR '')'') s3) = Some r"
    by (auto simp: matchLink_def Let_def split: option.splits if_splits)
  let ?mid = "dropWhile (\<lambda>c. c \<noteq> CHR '']'') s1"
  have "s = ''['' @ s1" using s1 by (rule expect_decompose)
  then have "s = ''['' @ g @ ?mid" using g by simp
  moreover have "suffix r ?mid"
  proof -
    have "suffix r (dropWhile (\<lambda>c. c \<noteq> CHR '')'') s3)" using r by (rule expect_suffix)
    also have "suffix \<dots> s3" by (rule suffix_dropWhile)
    also have "suffix s3 ?mid" using s3 by (rule expect_suffix)
    finally show ?thesis .
  qed
  ultimately show ?thesis by blast
qed

lemma subseq_replaceLinks: "subseq (replaceLinks s) s"
proof (induction s rule: replaceLinks.induct)
  case 1
  show ?case by simp
next
  case (2 c cs)
  show ?case
  proof (cases "matchLink (c # cs)")
    case None
    then show ?thesis using 2 by simp
  next
    case (Some p)
    obtain g rest where p: "p = (g, rest)" by (cases p)
    have ih: "subseq (replaceLinks rest) rest" using 2 Some p by simp
    obtain mid where d: "c # cs = ''['' @ g @ mid" and sf: "suffix rest mid"
      using matchLink_decompose [of "c # cs" g rest] Some p by auto
    have "subseq (replaceLinks rest) mid"
      using ih suffix_subseq [OF sf] by (rule subseq_order.trans)
    then have "subseq (g @ replaceLinks rest) (g @ mid)"
      by (simp add: subseq_append')
    then have "subseq (g @ replaceLinks rest) (''['' @ g @ mid)"
      by (rule subseq_drop_many)
    then show ?thesis using Some p d by (simp del: subseq_Cons2_iff)
  qed
qed

lemma subseq_removeMarkers: "subseq (removeMarkers s) s"
  by (simp add: removeMarkers_def)

lemma subseq_two_of_run:
  assumes "2 \<le> length (takeWhile (\<lambda>x. x = LF) cs)"
  shows "subseq [LF, LF] (LF # takeWhile (\<lambda>x. x = LF) cs)"
proof -
  obtain a as where t: "takeWhile (\<lambda>x. x = LF) cs = a # as"
    using assms by (cases "takeWhile (\<lambda>x. x = LF) cs") auto
  have "a \<in> set (takeWhile (\<lambda>x. x = LF) cs)" using t by simp
  then have "a = LF" by (rule set_takeWhileD [THEN conjunct2])
  then show ?thesis using t by simp
qed

lemma subseq_normalizeNewlines: "subseq (normalizeNewlines s) s"
proof (induction s rule: normalizeNewlines.induct)
  case 1
  show ?case by simp
next
  case (2 c cs)
  show ?case
  proof (cases "c = LF")
    case False
    then show ?thesis using 2 by simp
  next
    case True
    let ?run = "LF # takeWhile (\<lambda>x. x = LF) cs"
    let ?rest = "dropWhile (\<lambda>x. x = LF) cs"
    have ih: "subseq (normalizeNewlines ?rest) ?rest" using 2 True by simp
    have head: "subseq (if 3 \<le> length ?run then [LF, LF] else ?run) ?run"
      using subseq_two_of_run [of cs] by (simp del: subseq_Cons2_iff)
    have "subseq ((if 3 \<le> length ?run then [LF, LF] else ?run) @ normalizeNewlines ?rest)
            (?run @ ?rest)"
      using head ih by (rule list_emb_append_mono)
    moreover have "?run @ ?rest = c # cs" using True by simp
    ultimately show ?thesis using True by (simp add: Let_def del: subseq_Cons2_iff)
  qed
qed

lemma subseq_trim: "subseq (trim s) s"
proof -
  have "prefix (trimEnd t) t" for t
  proof -
    have "suffix (dropWhile isWhiteSpace (rev t)) (rev t)" by (rule suffix_dropWhile)
    then show ?thesis by (simp add: trimEnd_def suffix_to_prefix)
  qed
  then have "subseq (trimEnd (trimStart s)) (trimStart s)" by blast
  moreover have "subseq (trimStart s) s"
    unfolding trimStart_def by (intro suffix_subseq suffix_dropWhile)
  ultimately show ?thesis unfolding trim_def by (rule subseq_order.trans)
qed

lemma subseq_markdownToText: "subseq (markdownToText x) x"
proof -
  have "subseq (replaceLinks (replaceImages x)) x"
    using subseq_replaceLinks subseq_replaceImages by (rule subseq_order.trans)
  with subseq_removeMarkers have "subseq (removeMarkers (replaceLinks (replaceImages x))) x"
    by (rule subseq_order.trans)
  with subseq_normalizeNewlines
  have "subseq (normalizeNewlines (removeMarkers (replaceLinks (replaceImages x)))) x"
    by (rule subseq_order.trans)
  with subseq_trim show ?thesis
    unfolding markdownToText_def by (rule subseq_order.trans)
qed

section \<open>The members of a page set\<close>

text \<open>
  Whatever \<open>parsePageSpec\<close> returns holds only \<open>NaN\<close> and integers from 1: the guards
  stop every number below 1, and nothing else.
\<close>

lemma validPage_not_lt: "validPage p \<longleftrightarrow> \<not> lt p (Num 1)"
  by (cases p) (auto simp: validPage_def)

lemma rangeLoop_members:
  "list_all validPage pages \<Longrightarrow> validPage i \<Longrightarrow> list_all validPage (rangeLoop i e pages)"
proof (induction i e pages rule: rangeLoop.induct)
  case (1 i e pages)
  show ?case
  proof (cases "le i e")
    case False
    then show ?thesis using "1.prems" by simp
  next
    case True
    have "validPage (incr i)" using "1.prems"(2) by (cases i) (auto simp: validPage_def)
    moreover have "list_all validPage (setAdd i pages)"
      using "1.prems" by (simp add: setAdd_def)
    ultimately show ?thesis using True "1.IH" by simp
  qed
qed

lemma parsePart_members:
  "list_all validPage pages \<Longrightarrow> parsePart part pages = Inr pages'
   \<Longrightarrow> list_all validPage pages'"
  unfolding parsePart_def Let_def
  by (auto simp: validPage_not_lt [symmetric] setAdd_def rangeLoop_members
        simp del: rangeLoop.simps split: if_splits)

lemma parseParts_members:
  "list_all validPage pages \<Longrightarrow> parseParts parts pages = Inr pages'
   \<Longrightarrow> list_all validPage pages'"
proof (induction parts arbitrary: pages)
  case Nil
  then show ?case by simp
next
  case (Cons part parts)
  then show ?case by (auto split: sum.splits dest: parsePart_members)
qed

lemma parsePageSpec_members:
  "parsePageSpec pageSpec = Inr pages \<Longrightarrow> list_all validPage pages"
  unfolding parsePageSpec_def by (rule parseParts_members [of "[]"]) simp_all

section \<open>Page specifications\<close>

text \<open>
  Claim C1. Every page specification with an empty token (as in \<open>1,,3\<close>) or a token that
  is not a number is to fail with an error, and so are \<open>-5\<close>, \<open>5-3\<close>, \<open>0\<close>, \<open>1,abc\<close> and
  \<open>1-2-3\<close>. The function rejects \<open>-5\<close>, \<open>5-3\<close>, \<open>0\<close> and \<open>1-2-3\<close>, but it returns
  normally on \<open>1,abc\<close> and on \<open>1,,3\<close>: \<open>parseInt\<close> yields \<open>NaN\<close> for such a token, the
  test \<open>pageNum < 1\<close> is false for \<open>NaN\<close>, and \<open>NaN\<close> is added to the page set.
\<close>

theorem parsePageSpec_non_numeric_token:
  "parsePageSpec ''1,abc'' = Inr [Num 1, NaN]
   \<and> parsePageSpec ''1,,3'' = Inr [Num 1, NaN, Num 3]
   \<and> parsePageSpec ''-5'' = Inl MustBePositive
   \<and> parsePageSpec ''5-3'' = Inl InvalidRange
   \<and> parsePageSpec ''0'' = Inl MustBePositive
   \<and> parsePageSpec ''1-2-3'' = Inl InvalidRangeFormat"
  by code_simp

text \<open>
  Claim C2. Every member of a returned page set is to be an integer that is at least 1.
  On the input \<open>abc\<close> the function returns the page set whose only member is \<open>NaN\<close>,
  which is no integer and for which \<open>1 <= NaN\<close> is false.
\<close>

theorem parsePageSpec_NaN_member:
  "parsePageSpec ''abc'' = Inr [NaN] \<and> \<not> le (Num 1) NaN"
  by code_simp

text \<open>
  Claim C6. Ranges are inclusive, duplicates collapse and tokens are trimmed:
  \<open>3-5\<close> gives the pages 3, 4, 5; \<open>5-5\<close> gives 5; \<open>1,3,5-7\<close> gives 1, 3, 5, 6, 7;
  \<open>1-3,2,4\<close> gives 1, 2, 3, 4; and \<open> 1 , 5 - 10 \<close> gives 1, 5, 6, 7, 8, 9, 10.
  The page sets are given in their insertion order.
\<close>

theorem parsePageSpec_examples:
  "parsePageSpec ''3-5'' = Inr [Num 3, Num 4, Num 5]
   \<and> parsePageSpec ''5-5'' = Inr [Num 5]
   \<and> parsePageSpec ''1,3,5-7'' = Inr [Num 1, Num 3, Num 5, Num 6, Num 7]
   \<and> parsePageSpec ''1-3,2,4'' = Inr [Num 1, Num 2, Num 3, Num 4]
   \<and> parsePageSpec '' 1 , 5 - 10 ''
       = Inr [Num 1, Num 5, Num 6, Num 7, Num 8, Num 9, Num 10]"
  by code_simp

text \<open>
  Claim C9. A range token whose part after the \<open>-\<close> is not a numeral is to raise no error
  and to contribute no pages. That fails for \<open>0-x\<close>: the part \<open>x\<close> parses to \<open>NaN\<close>, yet
  the start 0 is below 1 and the positivity guard throws.
\<close>

theorem range_without_end_counterexample:
  "parseInt10 ''x'' = NaN \<and> parsePageSpec ''0-x'' = Inl MustBePositive"
  by code_simp

text \<open>
  Claim C9, amended. Let a token have, once trimmed, exactly one \<open>-\<close>, not in first
  place, let its part after the \<open>-\<close> parse to \<open>NaN\<close> (no leading decimal digit) and let
  its part before the \<open>-\<close> not parse to a number below 1. Then the token raises no
  error and leaves the page set as it was. In particular \<open>5-\<close> and \<open>1-x\<close> give the
  empty page set.
\<close>

theorem range_without_end:
  "(trim part = a @ ''-'' @ b \<and> a \<noteq> [] \<and> CHR ''-'' \<notin> set a \<and> CHR ''-'' \<notin> set b
      \<and> parseInt10 (trim b) = NaN \<and> \<not> lt (parseInt10 (trim a)) (Num 1)
     \<longrightarrow> parsePart part pages = Inr pages
         \<and> parseParts (part # parts) pages = parseParts parts pages)
   \<and> parsePageSpec ''5-'' = Inr []
   \<and> parsePageSpec ''1-x'' = Inr []"
proof -
  have token: "parsePart part pages = Inr pages
      \<and> parseParts (part # parts) pages = parseParts parts pages"
    if h: "trim part = a @ ''-'' @ b \<and> a \<noteq> [] \<and> CHR ''-'' \<notin> set a \<and> CHR ''-'' \<notin> set b
      \<and> parseInt10 (trim b) = NaN \<and> \<not> lt (parseInt10 (trim a)) (Num 1)"
  proof -
    have sp: "split (CHR ''-'') (trim part) = [a, b]"
      using h by (simp add: split_append split_single)
    have inc: "includesChar (trim part) (CHR ''-'')"
      using h by (simp add: includesChar_def)
    have st: "\<not> startsWith (trim part) ''-''"
      using h by (cases a) (auto simp: startsWith_def)
    have nth: "[a, b] ! 0 = a" "[a, b] ! 1 = b" "length [a, b] = 2" by simp_all
    have e: "parseInt10 (trim b) = NaN" and nlt: "\<not> lt (parseInt10 (trim a)) (Num 1)"
      using h by simp_all
    have cmp: "\<not> lt NaN (Num 1)" "\<not> gt (parseInt10 (trim a)) NaN"
      by (cases "parseInt10 (trim a)"; simp)+
    have "parsePart part pages = Inr pages"
      unfolding parsePart_def Let_def
      by (simp only: inc st sp nth e nlt cmp rangeLoop_NaN if_True if_False simp_thms)
    then show ?thesis by simp
  qed
  have five: "parsePageSpec ''5-'' = Inr []" by code_simp
  have one: "parsePageSpec ''1-x'' = Inr []" by code_simp
  show ?thesis using token five one by blast
qed

theorem range_without_end_witness:
  "trim '' 7 - y'' = ''7 '' @ ''-'' @ '' y'' \<and> parseInt10 (trim '' y'') = NaN
   \<and> \<not> lt (parseInt10 (trim ''7 '')) (Num 1)
   \<and> parsePart '' 7 - y'' [Num 2] = Inr [Num 2]
   \<and> parseParts ['' 7 - y'', ''3''] [Num 2] = parseParts [''3''] [Num 2]"
proof -
  have h: "trim '' 7 - y'' = ''7 '' @ ''-'' @ '' y'' \<and> ''7 '' \<noteq> []
     \<and> CHR ''-'' \<notin> set ''7 '' \<and> CHR ''-'' \<notin> set '' y''
     \<and> parseInt10 (trim '' y'') = NaN \<and> \<not> lt (parseInt10 (trim ''7 '')) (Num 1)"
    by code_simp
  show ?thesis
    using range_without_end [of "'' 7 - y''" "''7 ''" "'' y''" "[Num 2]" "[''3'']"] h by blast
qed

section \<open>Conversion to plain text\<close>

text \<open>
  Claim C7. On the heading, image, link and bold text of the example, \<open>markdownToText\<close>
  returns \<open>Title\<close>, an empty line, \<open>link\<close> and \<open>bold\<close>: the image is dropped, the link
  keeps its text only, and the marker characters are stripped.
\<close>

theorem markdownToText_example:
  "markdownToText
     ''# Title\<newline>\<newline>![alt](img.png)\<newline>[link](http://x)\<newline>**bold**''
   = ''Title\<newline>\<newline>link\<newline>bold''"
  by code_simp

section \<open>Removal of repetitive lines\<close>

text \<open>
  Claim C3. Cleaning is idempotent on the content: cleaning the cleaned content gives
  the cleaned content again.
\<close>

theorem clean_idempotent:
  "fst (cleanMarkdownContent (fst (cleanMarkdownContent x))) = fst (cleanMarkdownContent x)"
proof (cases "cleanedLines x = []")
  case True
  then have "fst (cleanMarkdownContent x) = []" by (simp add: cleanMarkdownContent_def)
  moreover have "cleanedLines [] = [[]]"
    by (simp add: cleanedLines_eq kept_def trim_Nil)
  ultimately show ?thesis by (simp add: cleanMarkdownContent_def)
next
  case False
  let ?ks = "cleanedLines x"
  have s: "split LF (join [LF] ?ks) = ?ks"
    using False by (simp add: split_join LF_notin_cleaned)
  have "cleanedLines (join [LF] ?ks) = filter (kept ?ks) ?ks"
    by (simp add: cleanedLines_eq [of "join [LF] ?ks"] s)
  also have "\<dots> = ?ks"
  proof (rule filter_True)
    show "\<forall>l\<in>set ?ks. kept ?ks l"
      unfolding cleanedLines_eq [of x] using kept_filter by auto
  qed
  finally show ?thesis by (simp add: cleanMarkdownContent_def)
qed

theorem clean_idempotent_witness:
  "fst (cleanMarkdownContent ''b\<newline>42\<newline>42\<newline>42'') = ''b\<newline>42\<newline>42\<newline>42''
   \<and> fst (cleanMarkdownContent ''a\<newline>b\<newline>a\<newline>42\<newline>a\<newline>42\<newline>42'') = ''b\<newline>42\<newline>42\<newline>42''"
proof -
  have e: "fst (cleanMarkdownContent ''a\<newline>b\<newline>a\<newline>42\<newline>a\<newline>42\<newline>42'') = ''b\<newline>42\<newline>42\<newline>42''"
    by code_simp
  show ?thesis
    using clean_idempotent [of "''a\<newline>b\<newline>a\<newline>42\<newline>a\<newline>42\<newline>42''"]
    unfolding e by (simp add: e)
qed

text \<open>
  Claim C4. A line whose trimmed form occurs exactly twice is never removed (it is in
  the output as often as in the input); a line whose trimmed form occurs three times or
  more and is not protected is removed wherever it appears; and the document with the
  lines \<open>Header\<close>, \<open>p1\<close>, \<open>Header\<close>, \<open>p2\<close>, \<open>Header\<close>, \<open>Page 3\<close> cleans to the lines
  \<open>p1\<close>, \<open>p2\<close>, \<open>Page 3\<close>. Occurrences are those of the frequency table, which leaves
  blank lines out.
\<close>

theorem threshold_boundary:
  "(line \<in> set (split LF content) \<and> occurrences (split LF content) (trim line) = 2
      \<longrightarrow> count_list (split LF (fst (cleanMarkdownContent content))) line
          = count_list (split LF content) line)
   \<and> (3 \<le> occurrences (split LF content) (trim line) \<and> \<not> isProtected (trim line)
      \<longrightarrow> line \<notin> set (split LF (fst (cleanMarkdownContent content))))
   \<and> split LF (fst (cleanMarkdownContent
        (join [LF] [''Header'', ''p1'', ''Header'', ''p2'', ''Header'', ''Page 3''])))
      = [''p1'', ''p2'', ''Page 3'']"
proof (intro conjI impI)
  assume "line \<in> set (split LF content) \<and> occurrences (split LF content) (trim line) = 2"
  then show "count_list (split LF (fst (cleanMarkdownContent content))) line
          = count_list (split LF content) line"
    by (intro kept_count) (simp_all add: kept_def)
next
  assume a: "3 \<le> occurrences (split LF content) (trim line) \<and> \<not> isProtected (trim line)"
  then have "trim line \<noteq> []" by (auto simp: occurrences_def)
  with a show "line \<notin> set (split LF (fst (cleanMarkdownContent content)))"
    by (intro not_kept_removed) (simp add: kept_def)
next
  show "split LF (fst (cleanMarkdownContent
        (join [LF] [''Header'', ''p1'', ''Header'', ''p2'', ''Header'', ''Page 3''])))
      = [''p1'', ''p2'', ''Page 3'']"
    by code_simp
qed

theorem threshold_boundary_witness:
  "''x '' \<in> set (split LF ''Header\<newline>x \<newline>Header\<newline> x\<newline> Header'')
   \<and> occurrences (split LF ''Header\<newline>x \<newline>Header\<newline> x\<newline> Header'') (trim ''x '') = 2
   \<and> count_list (split LF (fst (cleanMarkdownContent ''Header\<newline>x \<newline>Header\<newline> x\<newline> Header''))) ''x '' = 1
   \<and> 3 \<le> occurrences (split LF ''Header\<newline>x \<newline>Header\<newline> x\<newline> Header'') (trim '' Header'')
   \<and> \<not> isProtected (trim '' Header'')
   \<and> '' Header'' \<notin> set (split LF (fst (cleanMarkdownContent ''Header\<newline>x \<newline>Header\<newline> x\<newline> Header'')))"
proof -
  let ?d = "''Header\<newline>x \<newline>Header\<newline> x\<newline> Header''"
  have h1: "''x '' \<in> set (split LF ?d) \<and> occurrences (split LF ?d) (trim ''x '') = 2"
    by code_simp
  have h2: "3 \<le> occurrences (split LF ?d) (trim '' Header'') \<and> \<not> isProtected (trim '' Header'')"
    by code_simp
  have c: "count_list (split LF ?d) ''x '' = 1" by code_simp
  show ?thesis
    using threshold_boundary [of "''x ''" ?d] threshold_boundary [of "'' Header''" ?d] h1 h2 c
    by simp
qed

text \<open>
  Claim C5. A line whose trimmed form starts with \<open>Page \<close> and a digit (in any case),
  starts with a bracketed number, contains \<open>doi:\<close> (in any case) or consists of digits
  is never removed, however often it occurs: it is in the output as often as in the
  input. The witness has \<open>Page 7\<close>, \<open>[12]\<close>, \<open>something doi:10.1/x\<close> and \<open>42\<close> three
  times each.
\<close>

theorem protected_lines_kept:
  assumes "line \<in> set (split LF content)"
    and "matchPage (trim line) \<or> matchFootnote (trim line)
         \<or> matchDoi (trim line) \<or> matchDigits (trim line)"
  shows "count_list (split LF (fst (cleanMarkdownContent content))) line
         = count_list (split LF content) line"
  using assms by (intro kept_count) (simp_all add: kept_def isProtected_def)

theorem protected_lines_kept_witness:
  "count_list (split LF (fst (cleanMarkdownContent
      ''Page 7\<newline>[12]\<newline>x\<newline>something doi:10.1/x\<newline>42\<newline>Page 7\<newline>[12]\<newline>x\<newline>something doi:10.1/x\<newline>42\<newline>Page 7\<newline>[12]\<newline>x\<newline>something doi:10.1/x\<newline>42''))) ''Page 7'' = 3
   \<and> count_list (split LF (fst (cleanMarkdownContent
      ''Page 7\<newline>[12]\<newline>x\<newline>something doi:10.1/x\<newline>42\<newline>Page 7\<newline>[12]\<newline>x\<newline>something doi:10.1/x\<newline>42\<newline>Page 7\<newline>[12]\<newline>x\<newline>something doi:10.1/x\<newline>42''))) ''[12]'' = 3
   \<and> count_list (split LF (fst (cleanMarkdownContent
      ''Page 7\<newline>[12]\<newline>x\<newline>something doi:10.1/x\<newline>42\<newline>Page 7\<newline>[12]\<newline>x\<newline>something doi:10.1/x\<newline>42\<newline>Page 7\<newline>[12]\<newline>x\<newline>something doi:10.1/x\<newline>42''))) ''something doi:10.1/x'' = 3
   \<and> count_list (split LF (fst (cleanMarkdownContent
      ''Page 7\<newline>[12]\<newline>x\<newline>something doi:10.1/x\<newline>42\<newline>Page 7\<newline>[12]\<newline>x\<newline>something doi:10.1/x\<newline>42\<newline>Page 7\<newline>[12]\<newline>x\<newline>something doi:10.1/x\<newline>42''))) ''42'' = 3"
proof -
  let ?d = "''Page 7\<newline>[12]\<newline>x\<newline>something doi:10.1/x\<newline>42\<newline>Page 7\<newline>[12]\<newline>x\<newline>something doi:10.1/x\<newline>42\<newline>Page 7\<newline>[12]\<newline>x\<newline>something doi:10.1/x\<newline>42''"
  have m: "matchPage (trim ''Page 7'')" "matchFootnote (trim ''[12]'')"
      "matchDoi (trim ''something doi:10.1/x'')" "matchDigits (trim ''42'')"
    by code_simp+
  have i: "''Page 7'' \<in> set (split LF ?d)" "''[12]'' \<in> set (split LF ?d)"
      "''something doi:10.1/x'' \<in> set (split LF ?d)" "''42'' \<in> set (split LF ?d)"
    by code_simp+
  have c: "count_list (split LF ?d) ''Page 7'' = 3" "count_list (split LF ?d) ''[12]'' = 3"
      "count_list (split LF ?d) ''something doi:10.1/x'' = 3" "count_list (split LF ?d) ''42'' = 3"
    by code_simp+
  show ?thesis
    using protected_lines_kept [of "''Page 7''" ?d] protected_lines_kept [of "''[12]''" ?d]
      protected_lines_kept [of "''something doi:10.1/x''" ?d]
      protected_lines_kept [of "''42''" ?d]
    by (simp only: m i c simp_thms)
qed

text \<open>
  Claim C8. The lines of the output are to be a subsequence of the lines of the input,
  for every input, for the cleaner and for the converter. For the cleaner that fails on
  the document of three lines \<open>a\<close>: every line is removed, the cleaned content is the
  empty string, and the empty string has one line, the empty one, which is no line of
  the input.
\<close>

theorem clean_all_removed_counterexample:
  "fst (cleanMarkdownContent ''a\<newline>a\<newline>a'') = []
   \<and> split LF (fst (cleanMarkdownContent ''a\<newline>a\<newline>a'')) = [[]]
   \<and> \<not> subseq (split LF (fst (cleanMarkdownContent ''a\<newline>a\<newline>a'')))
         (split LF ''a\<newline>a\<newline>a'')"
  by code_simp

text \<open>
  Claim C8, amended. The cleaned content is the join of the kept lines, which are the
  blank and the non-repetitive lines of the input, unchanged and in their order: a
  subsequence of the lines of the input. Whenever a line is kept, the kept lines are
  exactly the lines of the cleaned content, so that the lines of the output are a
  subsequence of the lines of the input; when no line is kept, the cleaned content is
  the empty string. The converter reorders nothing either: its output is a subsequence
  of the code units of its input (code units are only dropped).
\<close>

theorem output_order_preserved:
  "fst (cleanMarkdownContent content) = join [LF] (cleanedLines content)
   \<and> cleanedLines content = filter (kept (split LF content)) (split LF content)
   \<and> subseq (cleanedLines content) (split LF content)
   \<and> (cleanedLines content \<noteq> []
        \<longrightarrow> split LF (fst (cleanMarkdownContent content)) = cleanedLines content
            \<and> subseq (split LF (fst (cleanMarkdownContent content))) (split LF content))
   \<and> (cleanedLines content = [] \<longrightarrow> fst (cleanMarkdownContent content) = [])
   \<and> subseq (markdownToText content) content"
proof -
  have content: "fst (cleanMarkdownContent content) = join [LF] (cleanedLines content)"
    by (simp add: cleanMarkdownContent_def)
  have lines: "cleanedLines content = filter (kept (split LF content)) (split LF content)"
    by (rule cleanedLines_eq)
  have sub: "subseq (cleanedLines content) (split LF content)"
    by (simp add: cleanedLines_eq)
  have some: "split LF (fst (cleanMarkdownContent content)) = cleanedLines content
      \<and> subseq (split LF (fst (cleanMarkdownContent content))) (split LF content)"
    if "cleanedLines content \<noteq> []"
    using that sub by (simp add: output_lines)
  have none: "fst (cleanMarkdownContent content) = []" if "cleanedLines content = []"
    using that by (simp add: cleanMarkdownContent_def)
  have conv: "subseq (markdownToText content) content"
    by (rule subseq_markdownToText)
  show ?thesis using content lines sub some none conv by blast
qed

theorem output_order_preserved_witness:
  "split LF (fst (cleanMarkdownContent ''Header\<newline>p1\<newline>\<newline>Header\<newline>p2\<newline>Header\<newline>Page 3''))
     = [''p1'', [], ''p2'', ''Page 3'']
   \<and> subseq [''p1'', [], ''p2'', ''Page 3'']
        (split LF ''Header\<newline>p1\<newline>\<newline>Header\<newline>p2\<newline>Header\<newline>Page 3'')
   \<and> fst (cleanMarkdownContent ''a\<newline>a\<newline>a'') = []
   \<and> subseq ''Title'' ''# Title''"
proof -
  let ?d = "''Header\<newline>p1\<newline>\<newline>Header\<newline>p2\<newline>Header\<newline>Page 3''"
  have e: "cleanedLines ?d = [''p1'', [], ''p2'', ''Page 3'']" by code_simp
  have n: "[''p1'', [], ''p2'', ''Page 3''] \<noteq> []" by simp
  have a: "cleanedLines ''a\<newline>a\<newline>a'' = []" by code_simp
  have m: "markdownToText ''# Title'' = ''Title''" by code_simp
  have kept: "split LF (fst (cleanMarkdownContent ?d)) = [''p1'', [], ''p2'', ''Page 3'']
      \<and> subseq [''p1'', [], ''p2'', ''Page 3''] (split LF ?d)"
    using output_order_preserved [of ?d] n unfolding e by blast
  have gone: "fst (cleanMarkdownContent ''a\<newline>a\<newline>a'') = []"
    using output_order_preserved [of "''a\<newline>a\<newline>a''"] a by blast
  have conv: "subseq ''Title'' ''# Title''"
    using output_order_preserved [of "''# Title''"] unfolding m by blast
  show ?thesis using kept gone conv by blast
qed

text \<open>
  Claim C10. The cleaned content is at most as long as the input, so the reduction
  that the handler reports is never negative.
\<close>

theorem cleaned_not_longer:
  "length (fst (cleanMarkdownContent x)) \<le> length x
   \<and> 0 \<le> reduction_percent (length x) (length (fst (cleanMarkdownContent x)))"
proof -
  have "length (fst (cleanMarkdownContent x))
        = length (join [LF] (filter (kept (split LF x)) (split LF x)))"
    by (simp add: cleanMarkdownContent_def cleanedLines_eq)
  also have "\<dots> \<le> length (join [LF] (split LF x))" by (rule length_join_filter)
  also have "\<dots> = length x" by (simp add: join_split)
  finally have l: "length (fst (cleanMarkdownContent x)) \<le> length x" .
  then show ?thesis using reduction_percent_nonneg by simp
qed

theorem cleaned_not_longer_witness:
  "length (fst (cleanMarkdownContent ''a\<newline>b\<newline>a\<newline>a'')) = 1
   \<and> length (fst (cleanMarkdownContent ''a\<newline>b\<newline>a\<newline>a'')) \<le> length ''a\<newline>b\<newline>a\<newline>a''
   \<and> 0 \<le> reduction_percent (length ''a\<newline>b\<newline>a\<newline>a'') 1"
proof -
  have e: "fst (cleanMarkdownContent ''a\<newline>b\<newline>a\<newline>a'') = ''b''" by code_simp
  have l: "length ''b'' = 1" "length ''a\<newline>b\<newline>a\<newline>a'' = 7" by simp_all
  show ?thesis using cleaned_not_longer [of "''a\<newline>b\<newline>a\<newline>a''"] unfolding e l by simp
qed

end
